theory Spec2Isabelle
  imports Main "HOL-Library.Word"
begin

section \<open>Data model of scheduler/task.go\<close>

text \<open>
  Go's \<open>uint64\<close> is a \<open>64 word\<close>; \<open>uint\<close> is taken at its 64-bit width as well.
  A \<open>time.Time\<close> is only ever stored, compared with \<open>==\<close> and reset to its zero value,
  so it is a natural number with \<open>0\<close> for \<open>time.Time{}\<close>. A \<open>time.Duration\<close> is a count of
  nanoseconds in an \<open>int64\<close>.
\<close>

type_synonym uint64 = "64 word"
type_synonym uint = "64 word"
type_synonym Time = nat
type_synonym Duration = "64 word"

definition zeroTime :: Time where
  "zeroTime = 0"

definition Second :: Duration where
  "Second = 1000000000"

definition DefaultDeadlineDuration :: Duration where
  "DefaultDeadlineDuration = Second * 5"

definition DefaultStopOnFailure :: uint where
  "DefaultStopOnFailure = 3"

datatype error =
    ErrTaskNotFound
  | ErrTaskNotStopped
  | ErrTaskHasAlreadyBeenAdded
  | ErrTaskDisabledOnFailures

text \<open>Run-time panics of the Go runtime that the modelled functions can raise.\<close>

datatype panic =
    NilPointerDereference
  | CloseOfNilChannel
  | CloseOfClosedChannel

text \<open>\<open>core.TaskState\<close>: the five lifecycle states the source assigns and tests.\<close>

datatype TaskState =
    TaskStopped
  | TaskSpinning
  | TaskFiring
  | TaskEnded
  | TaskDisabled

text \<open>
  Channels are identified by the order of their creation; a channel field holds \<open>None\<close>
  while it is \<open>nil\<close>. The run-time's channel store records how many channels
  \<open>make\<close> has returned and which of them have been closed.
\<close>

type_synonym chan = nat

record chans =
  made :: nat
  closed_chans :: "chan set"

definition make_chan :: "chans \<Rightarrow> chan \<times> chans" where
  "make_chan cs = (made cs, cs\<lparr>made := Suc (made cs)\<rparr>)"

definition close_chan :: "chan option \<Rightarrow> chans \<Rightarrow> panic + chans" where
  "close_chan c cs =
     (case c of
        None \<Rightarrow> Inl CloseOfNilChannel
      | Some k \<Rightarrow>
          if k \<in> closed_chans cs then Inl CloseOfClosedChannel
          else Inr (cs\<lparr>closed_chans := insert k (closed_chans cs)\<rparr>))"

text \<open>
  The collaborators (schedule, workflow, work manager, metrics manager, event emitter)
  live outside the sources; the task only stores references to them.
\<close>

type_synonym handle = nat

record task =
  id_task :: uint64
  name :: string
  schResponseChan :: "chan option"
  killChan :: "chan option"
  schedule :: handle
  workflow :: handle
  state :: TaskState
  creationTime :: Time
  lastFireTime :: Time
  manager :: handle
  metricsManager :: handle
  deadlineDuration :: Duration
  hitCount :: uint
  missedIntervals :: uint
  failedRuns :: uint
  lastFailureMessage :: string
  lastFailureTime :: Time
  stopOnFailure :: uint
  eventEmitter :: handle

record TaskDisabledEvent =
  TaskID :: uint64
  Why :: string

section \<open>Identifier generator\<close>

text \<open>
  \<open>id()\<close> is \<open>atomic.AddUint64(&idCounter, 1)\<close>: it stores the incremented counter and
  returns the new value. The counter is passed in and handed back.
\<close>

definition id_gen :: "uint64 \<Rightarrow> uint64 \<times> uint64" where
  "id_gen idCounter = (idCounter + 1, idCounter + 1)"

text \<open>\<open>n\<close> successive calls, oldest first, with the counter they leave behind.\<close>

fun id_gens :: "nat \<Rightarrow> uint64 \<Rightarrow> uint64 list \<times> uint64" where
  "id_gens 0 c = ([], c)"
| "id_gens (Suc n) c =
     (case id_gen c of (i, c') \<Rightarrow>
        (case id_gens n c' of (is, c'') \<Rightarrow> (i # is, c'')))"

section \<open>Task construction\<close>

text \<open>\<open>strconv.FormatInt(v, 10)\<close> on the signed reading of the identifier.\<close>

fun digits10 :: "nat \<Rightarrow> string" where
  "digits10 n =
     (if n < 10 then [''0123456789'' ! n]
      else digits10 (n div 10) @ [''0123456789'' ! (n mod 10)])"

declare digits10.simps [simp del]

definition FormatInt10 :: "int \<Rightarrow> string" where
  "FormatInt10 v = (if v < 0 then ''-'' @ digits10 (nat (- v)) else digits10 (nat v))"

text \<open>
  Modelled from the spec: \<open>core.TaskOption\<close> and the option constructors are declared
  outside the sources. An option is a configuration function applied to the fresh task;
  the setters the task offers are its name, its deadline duration and its stop-on-failure
  threshold.
\<close>

datatype TaskOption =
    SetTaskName string
  | TaskDeadlineDuration Duration
  | OptionStopOnFailure uint

definition SetName :: "string \<Rightarrow> task \<Rightarrow> task" where
  "SetName n t = t\<lparr>name := n\<rparr>"

definition SetDeadlineDuration :: "Duration \<Rightarrow> task \<Rightarrow> task" where
  "SetDeadlineDuration d t = t\<lparr>deadlineDuration := d\<rparr>"

definition SetStopOnFailure :: "uint \<Rightarrow> task \<Rightarrow> task" where
  "SetStopOnFailure v t = t\<lparr>stopOnFailure := v\<rparr>"

fun apply_opt :: "TaskOption \<Rightarrow> task \<Rightarrow> task" where
  "apply_opt (SetTaskName n) t = SetName n t"
| "apply_opt (TaskDeadlineDuration d) t = SetDeadlineDuration d t"
| "apply_opt (OptionStopOnFailure v) t = SetStopOnFailure v t"

text \<open>
  \<open>newTask\<close> draws an identifier, makes the response channel, reads the clock (\<open>now\<close>) and
  fills the struct; fields the literal leaves out keep Go's zero values. The options are
  then applied in order. The result carries the counter and the channel store onwards.
  The assignment \<open>wf.eventEmitter = emitter\<close> writes to the workflow object, of which the
  task only keeps a reference.
\<close>

definition newTask ::
  "uint64 \<Rightarrow> chans \<Rightarrow> Time \<Rightarrow> handle \<Rightarrow> handle \<Rightarrow> handle \<Rightarrow> handle \<Rightarrow> handle \<Rightarrow>
   TaskOption list \<Rightarrow> task \<times> uint64 \<times> chans" where
  "newTask idCounter cs now s wfl m mm emitter opts =
     (case id_gen idCounter of (taskId, idCounter') \<Rightarrow>
      case make_chan cs of (rc, cs') \<Rightarrow>
        (fold apply_opt opts
           \<lparr> id_task = taskId,
             name = ''Task-'' @ FormatInt10 (sint taskId),
             schResponseChan = Some rc,
             killChan = None,
             schedule = s,
             workflow = wfl,
             state = TaskStopped,
             creationTime = now,
             lastFireTime = zeroTime,
             manager = m,
             metricsManager = mm,
             deadlineDuration = DefaultDeadlineDuration,
             hitCount = 0,
             missedIntervals = 0,
             failedRuns = 0,
             lastFailureMessage = [],
             lastFailureTime = zeroTime,
             stopOnFailure = DefaultStopOnFailure,
             eventEmitter = emitter \<rparr>,
         idCounter', cs'))"

section \<open>Task registry\<close>

text \<open>
  The table maps identifiers to task pointers. A pointer is an address into the heap of
  task objects, or \<open>None\<close> for \<open>nil\<close>; every address holds a task, so only a \<open>nil\<close>
  pointer fails to dereference.
\<close>

type_synonym task_ptr = "nat option"
type_synonym heap = "nat \<Rightarrow> task"

record taskCollection =
  table :: "uint64 \<rightharpoonup> task_ptr"

definition newTaskCollection :: taskCollection where
  "newTaskCollection = \<lparr> table = Map.empty \<rparr>"

definition Get :: "taskCollection \<Rightarrow> uint64 \<Rightarrow> task_ptr" where
  "Get tc i = (case table tc i of Some t \<Rightarrow> t | None \<Rightarrow> None)"

definition add :: "heap \<Rightarrow> taskCollection \<Rightarrow> task_ptr \<Rightarrow> panic + (error option \<times> taskCollection)" where
  "add h tc p =
     (case p of
        None \<Rightarrow> Inl NilPointerDereference
      | Some a \<Rightarrow>
          if table tc (id_task (h a)) = None
          then Inr (None, tc\<lparr>table := (table tc)(id_task (h a) \<mapsto> p)\<rparr>)
          else Inr (Some ErrTaskHasAlreadyBeenAdded, tc))"

definition remove :: "heap \<Rightarrow> taskCollection \<Rightarrow> task_ptr \<Rightarrow> panic + (error option \<times> taskCollection)" where
  "remove h tc p =
     (case p of
        None \<Rightarrow> Inl NilPointerDereference
      | Some a \<Rightarrow>
          if table tc (id_task (h a)) \<noteq> None then
            if state (h a) \<noteq> TaskStopped
            then Inr (Some ErrTaskNotStopped, tc)
            else Inr (None, tc\<lparr>table := (table tc)(id_task (h a) := None)\<rparr>)
          else Inr (Some ErrTaskNotFound, tc))"

definition Table :: "taskCollection \<Rightarrow> (uint64 \<rightharpoonup> task_ptr)" where
  "Table tc = table tc"

section \<open>The spin loop\<close>

text \<open>
  Modelled from the spec: \<open>schedule.Response\<close> is declared outside the sources. A response
  carries one of the state tags \<open>Active\<close>, \<open>Ended\<close>, \<open>Error\<close> and a missed-tick count.
\<close>

datatype ScheduleState = Active | Ended | Error

record Response =
  sr_State :: ScheduleState
  sr_Missed :: uint

text \<open>
  Modelled from the spec: \<open>schedulerWorkflow.Start\<close> is outside the sources. The workflow
  is handed the task and reports the result of the fire by writing the task's failure
  fields (failed-run count, last failure message, last failure time); a workflow is the
  function from the task it is started on to the values it leaves in these fields.
\<close>

record wf_report =
  rep_failedRuns :: uint
  rep_lastFailureMessage :: string
  rep_lastFailureTime :: Time

type_synonym schedulerWorkflow = "task \<Rightarrow> wf_report"

definition workflow_Start :: "schedulerWorkflow \<Rightarrow> task \<Rightarrow> task" where
  "workflow_Start w t =
     t\<lparr>failedRuns := rep_failedRuns (w t),
       lastFailureMessage := rep_lastFailureMessage (w t),
       lastFailureTime := rep_lastFailureTime (w t)\<rparr>"

definition fire :: "schedulerWorkflow \<Rightarrow> task \<Rightarrow> task" where
  "fire w t =
     (let t1 = t\<lparr>state := TaskFiring\<rparr>;
          t2 = workflow_Start w t1
      in t2\<lparr>state := TaskSpinning\<rparr>)"

text \<open>
  What the \<open>select\<close> of one pass of the loop yields: a schedule response, which is what
  the goroutine running \<open>waitForSchedule\<close> got from the schedule's \<open>Wait\<close> and delivered on
  the response channel (together with the clock reading \<open>time.Now()\<close> and the behaviour of
  the workflow, both used only when the response is \<open>Active\<close>), or the kill signal.
\<close>

datatype select_outcome =
    Received Response Time schedulerWorkflow
  | KillSignal

datatype loop_status = Looping | Returned

text \<open>The first four statements of the \<open>Active\<close> case: count, stamp, and fire.\<close>

definition active_fire :: "Response \<Rightarrow> Time \<Rightarrow> schedulerWorkflow \<Rightarrow> task \<Rightarrow> task" where
  "active_fire sr now w t =
     (let t1 = t\<lparr>missedIntervals := missedIntervals t + sr_Missed sr\<rparr>;
          t2 = t1\<lparr>lastFireTime := now\<rparr>;
          t3 = t2\<lparr>hitCount := hitCount t2 + 1\<rparr>
      in fire w t3)"

text \<open>
  One pass of the body of \<open>for { select ... }\<close>, given what the \<open>select\<close> yields, the loop's
  local \<open>consecutiveFailures\<close> and the task. It returns whether the loop goes on, the new
  counter, the new task and the events handed to the emitter on the way out.
\<close>

fun spin_body ::
  "select_outcome \<Rightarrow> uint \<Rightarrow> task \<Rightarrow> loop_status \<times> uint \<times> task \<times> TaskDisabledEvent list" where
  "spin_body (Received sr now w) consecutiveFailures t =
     (case sr_State sr of
        Active \<Rightarrow>
          (let t' = active_fire sr now w t;
               c' = (if lastFailureTime t' = lastFireTime t'
                     then consecutiveFailures + 1 else 0)
           in if c' \<ge> stopOnFailure t'
              then (Returned, c', t'\<lparr>state := TaskDisabled\<rparr>,
                    [\<lparr> TaskID = id_task t',
                       Why = ''Task disabled with error: '' @ lastFailureMessage t' \<rparr>])
              else (Looping, c', t', []))
      | Ended \<Rightarrow> (Returned, consecutiveFailures, t\<lparr>state := TaskEnded\<rparr>, [])
      | Error \<Rightarrow> (Returned, consecutiveFailures, t\<lparr>state := TaskDisabled\<rparr>, []))"
| "spin_body KillSignal consecutiveFailures t =
     (Returned, consecutiveFailures, t\<lparr>state := TaskStopped, lastFireTime := zeroTime\<rparr>, [])"

text \<open>
  The loop over the outcomes of its successive \<open>select\<close>s. When they run out the loop is
  blocked in \<open>select\<close> (\<open>Looping\<close>); when a pass returns, the outcomes not consumed are
  handed back.
\<close>

fun spin_loop ::
  "select_outcome list \<Rightarrow> uint \<Rightarrow> task \<Rightarrow> TaskDisabledEvent list \<Rightarrow>
   loop_status \<times> select_outcome list \<times> uint \<times> task \<times> TaskDisabledEvent list" where
  "spin_loop [] c t evs = (Looping, [], c, t, evs)"
| "spin_loop (x # xs) c t evs =
     (case spin_body x c t of
        (Returned, c', t', es) \<Rightarrow> (Returned, xs, c', t', evs @ es)
      | (Looping, c', t', es) \<Rightarrow> spin_loop xs c' t' (evs @ es))"

definition spin ::
  "select_outcome list \<Rightarrow> task \<Rightarrow>
   loop_status \<times> select_outcome list \<times> uint \<times> task \<times> TaskDisabledEvent list" where
  "spin xs t = spin_loop xs 0 t []"

text \<open>
  A run of fires each of which the loop finds failed: every outcome is an \<open>Active\<close>
  response, and after the fire the last-failure time equals the last-fire time.
\<close>

fun fires_fail :: "select_outcome list \<Rightarrow> task \<Rightarrow> bool" where
  "fires_fail [] t = True"
| "fires_fail (KillSignal # xs) t = False"
| "fires_fail (Received sr now w # xs) t =
     (sr_State sr = Active \<and>
      lastFailureTime (active_fire sr now w t) = lastFireTime (active_fire sr now w t) \<and>
      fires_fail xs (active_fire sr now w t))"

text \<open>The task after a run of fires.\<close>

fun fired :: "select_outcome list \<Rightarrow> task \<Rightarrow> task" where
  "fired [] t = t"
| "fired (Received sr now w # xs) t = fired xs (active_fire sr now w t)"
| "fired (KillSignal # xs) t = fired xs t"

section \<open>Start, stop and kill\<close>

text \<open>
  The task together with what surrounds it at run time: the channel store, the live spin
  goroutines (each with its local \<open>consecutiveFailures\<close>) and the events emitted so far.
\<close>

record sys =
  tsk :: task
  store :: chans
  loops :: "uint list"
  emitted :: "TaskDisabledEvent list"

definition Spin :: "sys \<Rightarrow> sys" where
  "Spin s =
     (if state (tsk s) = TaskStopped then
        (case make_chan (store s) of (k, cs') \<Rightarrow>
           s\<lparr>tsk := (tsk s)\<lparr>state := TaskSpinning, killChan := Some k\<rparr>,
             store := cs',
             loops := loops s @ [0]\<rparr>)
      else s)"

definition Stop :: "sys \<Rightarrow> panic + sys" where
  "Stop s =
     (if state (tsk s) = TaskFiring \<or> state (tsk s) = TaskSpinning then
        (case close_chan (killChan (tsk s)) (store s) of
           Inl p \<Rightarrow> Inl p
         | Inr cs' \<Rightarrow> Inr (s\<lparr>store := cs'\<rparr>))
      else Inr s)"

definition Kill :: "sys \<Rightarrow> panic + sys" where
  "Kill s =
     (if state (tsk s) = TaskFiring \<or> state (tsk s) = TaskSpinning then
        (case close_chan (killChan (tsk s)) (store s) of
           Inl p \<Rightarrow> Inl p
         | Inr cs' \<Rightarrow> Inr (s\<lparr>store := cs', tsk := (tsk s)\<lparr>state := TaskDisabled\<rparr>\<rparr>))
      else Inr s)"

text \<open>
  What can happen next: a caller invokes \<open>Spin\<close>, \<open>Stop\<close> or \<open>Kill\<close>, or the \<open>i\<close>-th live spin
  goroutine completes one pass of its loop on the outcome of its \<open>select\<close>. The kill
  signal can only be selected once the task's kill channel has been closed; a receive on
  a \<open>nil\<close> channel never becomes ready. A pass is taken as a single step: the calls run
  under the task's lock, which \<open>fire\<close> holds while the workflow runs, and the interleaving
  of a call with the other statements of a pass is not told apart from the call coming
  before or after the pass. \<open>step\<close> is only meant for an action that is \<open>enabled\<close>, which
  \<open>run\<close> checks.
\<close>

datatype action =
    CallSpin
  | CallStop
  | CallKill
  | Pass nat select_outcome

definition kill_ready :: "sys \<Rightarrow> bool" where
  "kill_ready s =
     (case killChan (tsk s) of None \<Rightarrow> False | Some k \<Rightarrow> k \<in> closed_chans (store s))"

fun enabled :: "action \<Rightarrow> sys \<Rightarrow> bool" where
  "enabled (Pass i KillSignal) s = (i < length (loops s) \<and> kill_ready s)"
| "enabled (Pass i (Received sr now w)) s = (i < length (loops s))"
| "enabled a s = True"

text \<open>Dropping the \<open>i\<close>-th live goroutine when its loop returns.\<close>

definition drop_nth :: "nat \<Rightarrow> 'a list \<Rightarrow> 'a list" where
  "drop_nth i xs = take i xs @ drop (Suc i) xs"

fun step :: "action \<Rightarrow> sys \<Rightarrow> panic + sys" where
  "step CallSpin s = Inr (Spin s)"
| "step CallStop s = Stop s"
| "step CallKill s = Kill s"
| "step (Pass i x) s =
     (case spin_body x (loops s ! i) (tsk s) of
        (Returned, c', t', es) \<Rightarrow>
          Inr (s\<lparr>tsk := t', loops := drop_nth i (loops s), emitted := emitted s @ es\<rparr>)
      | (Looping, c', t', es) \<Rightarrow>
          Inr (s\<lparr>tsk := t', loops := (loops s)[i := c'], emitted := emitted s @ es\<rparr>))"

text \<open>
  A run of actions: \<open>None\<close> when an action is not enabled where it is taken, \<open>Some (Inl p)\<close>
  when the program panics, \<open>Some (Inr s)\<close> with the state reached otherwise.
\<close>

fun run :: "action list \<Rightarrow> sys \<Rightarrow> (panic + sys) option" where
  "run [] s = Some (Inr s)"
| "run (a # as) s =
     (if enabled a s then
        (case step a s of Inl p \<Rightarrow> Some (Inl p) | Inr s' \<Rightarrow> run as s')
      else None)"

text \<open>The system around a task fresh from \<open>newTask\<close>: no goroutine yet, nothing emitted.\<close>

definition created ::
  "uint64 \<Rightarrow> chans \<Rightarrow> Time \<Rightarrow> handle \<Rightarrow> handle \<Rightarrow> handle \<Rightarrow> handle \<Rightarrow> handle \<Rightarrow>
   TaskOption list \<Rightarrow> sys" where
  "created idCounter cs now s wfl m mm emitter opts =
     (case newTask idCounter cs now s wfl m mm emitter opts of (t, c', cs') \<Rightarrow>
        \<lparr> tsk = t, store = cs', loops = [], emitted = [] \<rparr>)"

text \<open>
  What holds of every state reached from a freshly created task: at most one spin
  goroutine is live, none while the task is stopped, one while it is spinning or firing;
  a live goroutine has a kill channel; and channels in use have been made.
\<close>

definition sys_inv :: "sys \<Rightarrow> bool" where
  "sys_inv s \<longleftrightarrow>
     length (loops s) \<le> 1 \<and>
     (state (tsk s) = TaskStopped \<longrightarrow> loops s = []) \<and>
     (state (tsk s) = TaskSpinning \<or> state (tsk s) = TaskFiring \<longrightarrow> loops s \<noteq> []) \<and>
     (loops s \<noteq> [] \<longrightarrow> killChan (tsk s) \<noteq> None) \<and>
     (\<forall>k \<in> closed_chans (store s). k < made (store s)) \<and>
     (\<forall>k. killChan (tsk s) = Some k \<longrightarrow> k < made (store s))"

text \<open>
  The calls that close the kill channel, and the states from which the loop cannot
  observe a kill signal: the kill channel is open and the task is not stopped.
\<close>

fun is_stop :: "action \<Rightarrow> bool" where
  "is_stop CallStop = True"
| "is_stop CallKill = True"
| "is_stop a = False"

definition running :: "sys \<Rightarrow> bool" where
  "running s \<longleftrightarrow> \<not> kill_ready s \<and> state (tsk s) \<noteq> TaskStopped"

section \<open>Concrete inputs\<close>

text \<open>
  The first task of a process: created while the identifier counter and the channel store
  are still empty, at clock reading 7, without options.
\<close>

definition exChans :: chans where
  "exChans = \<lparr> made = 0, closed_chans = {} \<rparr>"

definition exTask :: task where
  "exTask = fst (newTask 0 exChans 7 1 2 3 4 5 [])"

text \<open>
  The same task once \<open>Spin\<close> has started it, a workflow that fails every fire (it stamps
  the failure with the fire time), one that never reports anything, and some responses.
\<close>

definition exStarted :: sys where
  "exStarted = Spin (created 0 exChans 7 1 2 3 4 5 [])"

definition exSpinning :: task where
  "exSpinning = tsk exStarted"

definition exFailing :: schedulerWorkflow where
  "exFailing t = \<lparr> rep_failedRuns = failedRuns t + 1, rep_lastFailureMessage = ''boom'',
                   rep_lastFailureTime = lastFireTime t \<rparr>"

definition exSucceeding :: schedulerWorkflow where
  "exSucceeding t = \<lparr> rep_failedRuns = failedRuns t,
                      rep_lastFailureMessage = lastFailureMessage t,
                      rep_lastFailureTime = lastFailureTime t \<rparr>"

definition exActive :: "uint \<Rightarrow> Response" where
  "exActive n = \<lparr> sr_State = Active, sr_Missed = n \<rparr>"

definition exEnded :: Response where
  "exEnded = \<lparr> sr_State = Ended, sr_Missed = 0 \<rparr>"

definition exError :: Response where
  "exError = \<lparr> sr_State = Error, sr_Missed = 0 \<rparr>"

definition exFails :: "select_outcome list" where
  "exFails = [Received (exActive 0) 10 exFailing, Received (exActive 0) 11 exFailing,
              Received (exActive 0) 12 exFailing]"

text \<open>The started task after \<open>Stop\<close> has closed its kill channel.\<close>

definition exStopping :: sys where
  "exStopping = exStarted\<lparr>store := (store exStarted)\<lparr>closed_chans := {1}\<rparr>\<rparr>"

text \<open>The started task after one successful fire.\<close>

definition exFired :: sys where
  "exFired = exStarted\<lparr>tsk := active_fire (exActive 0) 10 exSucceeding exSpinning\<rparr>"

section \<open>Properties of the identifier generator\<close>

lemma unat_succ: "unat (c::uint64) + 1 < 2 ^ 64 \<Longrightarrow> unat (c + 1) = Suc (unat c)"
  by (simp add: unat_word_ariths)

lemma less_succ: "unat (c::uint64) + 1 < 2 ^ 64 \<Longrightarrow> c < c + 1"
  by (simp add: word_less_nat_alt unat_succ)

lemma id_gens_props:
  "unat c + n < 2 ^ 64 \<Longrightarrow>
     sorted_wrt (<) (fst (id_gens n c)) \<and>
     (\<forall>i \<in> set (fst (id_gens n c)). c < i) \<and>
     length (fst (id_gens n c)) = n \<and>
     snd (id_gens n c) = c + of_nat n"
proof (induction n arbitrary: c)
  case 0
  then show ?case by simp
next
  case (Suc n)
  from Suc.prems have b: "unat c + 1 < 2 ^ 64" by simp
  have u: "unat (c + 1) = Suc (unat c)" using b by (rule unat_succ)
  have l: "c < c + 1" using b by (rule less_succ)
  from Suc.prems u have "unat (c + 1) + n < 2 ^ 64" by simp
  from Suc.IH [OF this] l show ?case
    by (auto simp: id_gen_def split: prod.splits intro: less_trans)
qed

text \<open>
  C10, as the code has it. The counter is a \<open>uint64\<close> and the addition wraps: the call made
  when the counter holds \<open>2^64 - 1\<close> returns \<open>0\<close>, which is smaller than the identifier
  returned just before it.
\<close>

theorem id_gen_wraps_counterexample:
  "fst (id_gen (2 ^ 64 - 1)) = 0 \<and> fst (id_gens 2 (2 ^ 64 - 2)) = [2 ^ 64 - 1, 0]"
  by code_simp

text \<open>
  C10, amended: as long as the counter does not pass \<open>2^64 - 1\<close>, that is for \<open>n\<close> calls
  made from a counter \<open>c\<close> with \<open>c + n < 2^64\<close> (from the start of the process, where the
  counter is \<open>0\<close>, for fewer than \<open>2^64\<close> calls), the identifiers returned are strictly
  increasing in the order of the calls, pairwise distinct, greater than the counter they
  started from, and never \<open>0\<close>.
\<close>

theorem id_gen_increasing:
  "unat c + n < 2 ^ 64 \<Longrightarrow>
     sorted_wrt (<) (fst (id_gens n c)) \<and>
     distinct (fst (id_gens n c)) \<and>
     (\<forall>i \<in> set (fst (id_gens n c)). c < i \<and> i \<noteq> 0) \<and>
     length (fst (id_gens n c)) = n"
proof -
  assume a: "unat c + n < 2 ^ 64"
  note p = id_gens_props [OF a]
  have d: "distinct (fst (id_gens n c))"
    using p by (simp add: strict_sorted_iff)
  have nz: "\<forall>i \<in> set (fst (id_gens n c)). c < i \<and> i \<noteq> 0"
    using p by (auto simp: word_less_nat_alt)
  show ?thesis using p d nz by simp
qed

theorem id_gen_increasing_witness:
  "unat (0::uint64) + 3 < 2 ^ 64 \<and> fst (id_gens 3 0) = [1, 2, 3] \<and>
   sorted_wrt (<) (fst (id_gens 3 0))"
  using id_gen_increasing [of 0 3] by (simp add: id_gen_def numeral_3_eq_3)

section \<open>Properties of task construction\<close>

lemma exTask_fields:
  "id_task exTask = 1" "state exTask = TaskStopped" "killChan exTask = None"
  "hitCount exTask = 0" "missedIntervals exTask = 0" "stopOnFailure exTask = 3"
  "lastFailureTime exTask = 0" "lastFailureMessage exTask = []" "failedRuns exTask = 0"
  by (simp_all add: exTask_def exChans_def newTask_def id_gen_def make_chan_def
      DefaultStopOnFailure_def zeroTime_def)

lemma apply_opt_frame:
  "state (apply_opt x t) = state t \<and> hitCount (apply_opt x t) = hitCount t \<and>
   missedIntervals (apply_opt x t) = missedIntervals t \<and>
   failedRuns (apply_opt x t) = failedRuns t \<and>
   id_task (apply_opt x t) = id_task t \<and> killChan (apply_opt x t) = killChan t"
  by (cases x) (simp_all add: SetName_def SetDeadlineDuration_def SetStopOnFailure_def)

lemma fold_apply_opt_frame:
  "state (fold apply_opt opts t) = state t \<and> hitCount (fold apply_opt opts t) = hitCount t \<and>
   missedIntervals (fold apply_opt opts t) = missedIntervals t \<and>
   failedRuns (fold apply_opt opts t) = failedRuns t \<and>
   id_task (fold apply_opt opts t) = id_task t \<and>
   killChan (fold apply_opt opts t) = killChan t"
  by (induction opts arbitrary: t) (simp_all add: apply_opt_frame)

text \<open>
  C8. Whatever the options, the task returned by \<open>newTask\<close> is in state \<open>TaskStopped\<close> with
  hit count, missed-interval count and failed-run count 0. The struct the options are
  applied to (the task returned when there are no options) has a deadline duration of
  5 seconds, a second being \<open>10^9\<close> nanoseconds, and a stop-on-failure threshold of 3.
\<close>

theorem newTask_initial:
  "state (fst (newTask idCounter cs now s wfl m mm emitter opts)) = TaskStopped \<and>
   hitCount (fst (newTask idCounter cs now s wfl m mm emitter opts)) = 0 \<and>
   missedIntervals (fst (newTask idCounter cs now s wfl m mm emitter opts)) = 0 \<and>
   failedRuns (fst (newTask idCounter cs now s wfl m mm emitter opts)) = 0 \<and>
   deadlineDuration (fst (newTask idCounter cs now s wfl m mm emitter [])) = 5 * Second \<and>
   unat Second = 10 ^ 9 \<and>
   stopOnFailure (fst (newTask idCounter cs now s wfl m mm emitter [])) = 3 \<and>
   fst (newTask idCounter cs now s wfl m mm emitter opts) =
     fold apply_opt opts (fst (newTask idCounter cs now s wfl m mm emitter []))"
  by (simp add: newTask_def id_gen_def make_chan_def fold_apply_opt_frame
      DefaultDeadlineDuration_def DefaultStopOnFailure_def Second_def)

theorem newTask_initial_witness:
  "state exTask = TaskStopped \<and> hitCount exTask = 0 \<and> missedIntervals exTask = 0 \<and>
   failedRuns exTask = 0 \<and> deadlineDuration exTask = 5000000000 \<and> stopOnFailure exTask = 3"
  using newTask_initial [of 0 exChans 7 1 2 3 4 5 "[]"]
  by (simp add: exTask_def Second_def)

section \<open>Properties of the registry\<close>

text \<open>
  C5. For a registry and a task (a non-nil pointer \<open>a\<close> to the task \<open>h a\<close>), \<open>remove\<close> returns
  the not-found error when the task's identifier is not a key of the table; it returns the
  not-stopped error when the identifier is a key and the task's state is not
  \<open>TaskStopped\<close>, and the identifier is then still a key; it returns no error exactly when
  the identifier is a key and the state is \<open>TaskStopped\<close>, and then the entry is deleted.
  Whenever an error is returned the registry is unchanged.
\<close>

theorem remove_cases:
  "\<exists>e tc'. remove h tc (Some a) = Inr (e, tc') \<and>
     (id_task (h a) \<notin> dom (table tc) \<longrightarrow> e = Some ErrTaskNotFound) \<and>
     (id_task (h a) \<in> dom (table tc) \<and> state (h a) \<noteq> TaskStopped \<longrightarrow>
        e = Some ErrTaskNotStopped \<and> id_task (h a) \<in> dom (table tc')) \<and>
     (e = None \<longleftrightarrow> id_task (h a) \<in> dom (table tc) \<and> state (h a) = TaskStopped) \<and>
     (e = None \<longrightarrow> table tc' = (table tc)(id_task (h a) := None)) \<and>
     (e \<noteq> None \<longrightarrow> tc' = tc)"
  by (auto simp: remove_def)

theorem remove_cases_witness:
  "remove (\<lambda>a. exTask) \<lparr> table = [1 \<mapsto> Some 0] \<rparr> (Some 0) =
     Inr (None, \<lparr> table = Map.empty \<rparr>) \<and>
   remove (\<lambda>a. exTask) \<lparr> table = Map.empty \<rparr> (Some 0) =
     Inr (Some ErrTaskNotFound, \<lparr> table = Map.empty \<rparr>) \<and>
   remove (\<lambda>a. exTask\<lparr>state := TaskSpinning\<rparr>) \<lparr> table = [1 \<mapsto> Some 0] \<rparr> (Some 0) =
     Inr (Some ErrTaskNotStopped, \<lparr> table = [1 \<mapsto> Some 0] \<rparr>)"
  using remove_cases [where h = "\<lambda>a. exTask" and a = 0 and tc = "\<lparr> table = [1 \<mapsto> Some 0] \<rparr>"]
    remove_cases [where h = "\<lambda>a. exTask" and a = 0 and tc = "\<lparr> table = Map.empty \<rparr>"]
    remove_cases [where h = "\<lambda>a. exTask\<lparr>state := TaskSpinning\<rparr>" and a = 0
      and tc = "\<lparr> table = [1 \<mapsto> Some 0] \<rparr>"]
  by (auto simp: exTask_fields)

text \<open>
  C6. For a registry and a task (a non-nil pointer \<open>a\<close>), \<open>add\<close> succeeds when the task's
  identifier is not yet a key of the table: the pointer is stored under it, \<open>Get\<close> returns
  it, and adding any task with the same identifier afterwards returns the already-added
  error. When the identifier is already a key, \<open>add\<close> returns the already-added error and
  the registry is unchanged, so \<open>Get\<close> still returns the pointer stored first.
\<close>

theorem add_cases:
  "\<exists>e tc'. add h tc (Some a) = Inr (e, tc') \<and>
     (id_task (h a) \<notin> dom (table tc) \<longrightarrow>
        e = None \<and> tc' = tc\<lparr>table := (table tc)(id_task (h a) \<mapsto> Some a)\<rparr> \<and>
        Get tc' (id_task (h a)) = Some a \<and>
        (\<forall>b. id_task (h b) = id_task (h a) \<longrightarrow>
           add h tc' (Some b) = Inr (Some ErrTaskHasAlreadyBeenAdded, tc'))) \<and>
     (id_task (h a) \<in> dom (table tc) \<longrightarrow>
        e = Some ErrTaskHasAlreadyBeenAdded \<and> tc' = tc \<and>
        Get tc' (id_task (h a)) = Get tc (id_task (h a)))"
  by (auto simp: add_def Get_def)

theorem add_cases_witness:
  "add (\<lambda>a. exTask) newTaskCollection (Some 0) = Inr (None, \<lparr> table = [1 \<mapsto> Some 0] \<rparr>) \<and>
   add (\<lambda>a. exTask) \<lparr> table = [1 \<mapsto> Some 0] \<rparr> (Some 5) =
     Inr (Some ErrTaskHasAlreadyBeenAdded, \<lparr> table = [1 \<mapsto> Some 0] \<rparr>) \<and>
   Get \<lparr> table = [1 \<mapsto> Some 0] \<rparr> 1 = Some 0"
  using add_cases [where h = "\<lambda>a. exTask" and a = 0 and tc = newTaskCollection]
    add_cases [where h = "\<lambda>a. exTask" and a = 5 and tc = "\<lparr> table = [1 \<mapsto> Some 0] \<rparr>"]
  by (simp add: exTask_fields newTaskCollection_def Get_def add_def)

section \<open>Properties of the spin loop\<close>

lemmas ex_defs = exStarted_def exSpinning_def exFailing_def exSucceeding_def exActive_def
  exEnded_def exError_def exFails_def created_def newTask_def exChans_def id_gen_def
  make_chan_def Spin_def DefaultStopOnFailure_def zeroTime_def

lemma exSpinning_fields:
  "stopOnFailure exSpinning = 3" "state exSpinning = TaskSpinning" "id_task exSpinning = 1"
  "hitCount exSpinning = 0" "missedIntervals exSpinning = 0" "killChan exSpinning = Some 1"
  "lastFailureTime exSpinning = 0"
  by (simp_all add: ex_defs)

lemma active_fire_fields:
  "stopOnFailure (active_fire sr now w t) = stopOnFailure t"
  "id_task (active_fire sr now w t) = id_task t"
  "killChan (active_fire sr now w t) = killChan t"
  "hitCount (active_fire sr now w t) = hitCount t + 1"
  "missedIntervals (active_fire sr now w t) = missedIntervals t + sr_Missed sr"
  "lastFireTime (active_fire sr now w t) = now"
  "state (active_fire sr now w t) = TaskSpinning"
  by (simp_all add: active_fire_def fire_def workflow_Start_def Let_def)

lemma fires_fail_append:
  "fires_fail (xs @ ys) t = (fires_fail xs t \<and> fires_fail ys (fired xs t))"
proof (induction xs arbitrary: t)
  case Nil
  show ?case by simp
next
  case (Cons x xs)
  show ?case by (cases x) (simp_all add: Cons.IH)
qed

lemma fired_fields:
  "fires_fail fs t \<Longrightarrow>
   stopOnFailure (fired fs t) = stopOnFailure t \<and> id_task (fired fs t) = id_task t \<and>
   hitCount (fired fs t) = hitCount t + of_nat (length fs) \<and>
   (fs \<noteq> [] \<longrightarrow> state (fired fs t) = TaskSpinning)"
proof (induction fs arbitrary: t)
  case Nil
  show ?case by simp
next
  case (Cons x xs)
  then show ?case
  proof (cases x)
    case (Received sr now w)
    with Cons.prems have f: "fires_fail xs (active_fire sr now w t)" by simp
    from Cons.IH [OF f] Received show ?thesis
      by (cases xs) (simp_all add: active_fire_fields)
  next
    case KillSignal
    with Cons.prems show ?thesis by simp
  qed
qed

lemma spin_body_failing:
  assumes "sr_State sr = Active"
    and "lastFailureTime (active_fire sr now w t) = lastFireTime (active_fire sr now w t)"
  shows "spin_body (Received sr now w) c t =
     (if stopOnFailure t \<le> c + 1
      then (Returned, c + 1, (active_fire sr now w t)\<lparr>state := TaskDisabled\<rparr>,
            [\<lparr> TaskID = id_task t,
               Why = ''Task disabled with error: '' @ lastFailureMessage (active_fire sr now w t) \<rparr>])
      else (Looping, c + 1, active_fire sr now w t, []))"
  using assms by (simp add: Let_def active_fire_fields)

lemma spin_body_succeeding:
  assumes "sr_State sr = Active"
    and "lastFailureTime (active_fire sr now w t) \<noteq> lastFireTime (active_fire sr now w t)"
  shows "spin_body (Received sr now w) c t =
     (if stopOnFailure t = 0
      then (Returned, 0, (active_fire sr now w t)\<lparr>state := TaskDisabled\<rparr>,
            [\<lparr> TaskID = id_task t,
               Why = ''Task disabled with error: '' @ lastFailureMessage (active_fire sr now w t) \<rparr>])
      else (Looping, 0, active_fire sr now w t, []))"
  using assms by (simp add: Let_def active_fire_fields)

lemma below_threshold:
  "unat (c::uint) + 1 < unat (k::uint) \<Longrightarrow> \<not> k \<le> c + 1"
proof -
  assume a: "unat c + 1 < unat k"
  have "unat k < 2 ^ 64" using unsigned_less [of k] by simp
  with a have "unat c + 1 < 2 ^ 64" by simp
  then have "unat (c + 1) = Suc (unat c)" by (rule unat_succ)
  with a show ?thesis by (simp add: word_le_nat_alt)
qed

lemma loop_fail_prefix:
  "fires_fail fs t \<Longrightarrow> unat c + length fs < unat (stopOnFailure t) \<Longrightarrow>
   spin_loop (fs @ rest) c t evs = spin_loop rest (c + of_nat (length fs)) (fired fs t) evs"
proof (induction fs arbitrary: c t)
  case Nil
  show ?case by simp
next
  case (Cons x xs)
  show ?case
  proof (cases x)
    case KillSignal
    with Cons.prems show ?thesis by simp
  next
    case (Received sr now w)
    with Cons.prems have a: "sr_State sr = Active"
      and f: "lastFailureTime (active_fire sr now w t) = lastFireTime (active_fire sr now w t)"
      and r: "fires_fail xs (active_fire sr now w t)" by simp_all
    from Cons.prems have lt: "unat c + 1 < unat (stopOnFailure t)" by simp
    have nle: "\<not> stopOnFailure t \<le> c + 1" using lt by (rule below_threshold)
    have b: "spin_body (Received sr now w) c t = (Looping, c + 1, active_fire sr now w t, [])"
      using spin_body_failing [OF a f] nle by simp
    have "unat (stopOnFailure t) < 2 ^ 64" using unsigned_less [of "stopOnFailure t"] by simp
    with lt have "unat (c + 1) = Suc (unat c)" by (intro unat_succ) simp
    with Cons.prems have "unat (c + 1) + length xs < unat (stopOnFailure (active_fire sr now w t))"
      by (simp add: active_fire_fields)
    from Cons.IH [OF r this] b Received show ?thesis
      by (simp add: add.assoc)
  qed
qed

lemma threshold_hit:
  assumes k: "stopOnFailure t = k" "k \<noteq> 0"
    and len: "length fs = unat k"
    and ff: "fires_fail fs t"
  shows "\<exists>t'. spin (fs @ rest) t =
           (Returned, rest, k, t',
            [\<lparr> TaskID = id_task t,
               Why = ''Task disabled with error: '' @ lastFailureMessage t' \<rparr>]) \<and>
         state t' = TaskDisabled \<and> hitCount t' = hitCount t + k"
proof -
  from k(2) have kpos: "0 < unat k" by (simp add: unat_gt_0)
  with len have ne: "fs \<noteq> []" by auto
  define fs' where "fs' = butlast fs"
  define l where "l = last fs"
  have split: "fs = fs' @ [l]" using ne by (simp add: fs'_def l_def)
  have len': "length fs' = unat k - 1" using len by (simp add: fs'_def)
  from ff split have f1: "fires_fail fs' t" and f2: "fires_fail [l] (fired fs' t)"
    by (simp_all add: fires_fail_append)
  define t1 where "t1 = fired fs' t"
  note ft = fired_fields [OF f1, folded t1_def]
  from f2 obtain sr now w where l: "l = Received sr now w"
    and a: "sr_State sr = Active"
    and f: "lastFailureTime (active_fire sr now w t1) = lastFireTime (active_fire sr now w t1)"
    by (cases l) (simp_all add: t1_def)
  have cnt: "(of_nat (length fs') :: uint) + 1 = k"
  proof -
    have "(of_nat (length fs') :: uint) + 1 = of_nat (Suc (unat k - 1))" by (simp add: len')
    also have "\<dots> = of_nat (unat k)" using kpos by simp
    finally show ?thesis by simp
  qed
  have pre: "spin_loop (fs' @ (l # rest)) 0 t [] = spin_loop (l # rest) (of_nat (length fs')) t1 []"
    using loop_fail_prefix [OF f1, of 0 "l # rest" "[]"] kpos len' k(1) by (simp add: t1_def)
  have body: "spin_body l (of_nat (length fs')) t1 =
      (Returned, k, (active_fire sr now w t1)\<lparr>state := TaskDisabled\<rparr>,
       [\<lparr> TaskID = id_task t1,
          Why = ''Task disabled with error: '' @ lastFailureMessage (active_fire sr now w t1) \<rparr>])"
    using spin_body_failing [OF a f, of "of_nat (length fs')"] ft k(1) cnt by (simp add: l)
  have "spin (fs @ rest) t =
      (Returned, rest, k, (active_fire sr now w t1)\<lparr>state := TaskDisabled\<rparr>,
       [\<lparr> TaskID = id_task t,
          Why = ''Task disabled with error: '' @ lastFailureMessage (active_fire sr now w t1) \<rparr>])"
    using pre body ft by (simp add: spin_def split)
  moreover have "hitCount ((active_fire sr now w t1)\<lparr>state := TaskDisabled\<rparr>) = hitCount t + k"
    using ft cnt by (simp add: active_fire_fields add.assoc)
  ultimately show ?thesis by auto
qed

lemma threshold_not_before:
  assumes k: "stopOnFailure t = k"
    and len: "length fs = unat k"
    and ff: "fires_fail fs t"
    and j: "j < unat k"
  shows "\<exists>tj. spin (take j fs) t = (Looping, [], of_nat j, tj, []) \<and>
           (0 < j \<longrightarrow> state tj = TaskSpinning)"
proof -
  have "fs = take j fs @ drop j fs" by simp
  with ff have f: "fires_fail (take j fs) t" by (metis fires_fail_append)
  have lj: "length (take j fs) = j" using j len by simp
  have "spin_loop (take j fs @ []) 0 t [] = spin_loop [] (0 + of_nat (length (take j fs))) (fired (take j fs) t) []"
    using j k lj by (intro loop_fail_prefix [OF f]) simp
  then have "spin (take j fs) t = (Looping, [], of_nat j, fired (take j fs) t, [])"
    using lj by (simp add: spin_def)
  moreover have "0 < j \<longrightarrow> state (fired (take j fs) t) = TaskSpinning"
    using fired_fields [OF f] lj by auto
  ultimately show ?thesis by blast
qed

text \<open>
  C1. Let the task's stop-on-failure threshold be \<open>k \<ge> 1\<close>. If the loop, started with its
  counter at 0, receives \<open>k\<close> Active responses and finds every one of these fires failed
  (after the fire the last-failure time equals the last-fire time just recorded), then
  it returns right after the \<open>k\<close>-th of them, leaving whatever follows unconsumed: the state
  is \<open>TaskDisabled\<close>, the task has fired \<open>k\<close> more times, and exactly one event has been
  emitted, carrying the task's identifier and its last failure message. After any smaller
  number \<open>j\<close> of these fires the loop is still running, with counter \<open>j\<close> and nothing emitted.
  A fire found successful sets the counter to zero, whatever it was, and the loop goes on.
\<close>

theorem failure_threshold:
  assumes k: "stopOnFailure t = k" "k \<noteq> 0"
  shows
   "(length fs = unat k \<and> fires_fail fs t \<longrightarrow>
       (\<exists>t'. spin (fs @ rest) t =
           (Returned, rest, k, t',
            [\<lparr> TaskID = id_task t,
               Why = ''Task disabled with error: '' @ lastFailureMessage t' \<rparr>]) \<and>
         state t' = TaskDisabled \<and> hitCount t' = hitCount t + k) \<and>
       (\<forall>j. j < unat k \<longrightarrow>
          (\<exists>tj. spin (take j fs) t = (Looping, [], of_nat j, tj, []) \<and>
             (0 < j \<longrightarrow> state tj = TaskSpinning)))) \<and>
    (sr_State sr = Active \<and>
     lastFailureTime (active_fire sr now w t) \<noteq> lastFireTime (active_fire sr now w t) \<longrightarrow>
       spin_body (Received sr now w) c t = (Looping, 0, active_fire sr now w t, []))"
proof (intro conjI impI allI)
  assume "length fs = unat k \<and> fires_fail fs t"
  then show "\<exists>t'. spin (fs @ rest) t =
           (Returned, rest, k, t',
            [\<lparr> TaskID = id_task t,
               Why = ''Task disabled with error: '' @ lastFailureMessage t' \<rparr>]) \<and>
         state t' = TaskDisabled \<and> hitCount t' = hitCount t + k"
    using threshold_hit [OF k] by blast
next
  fix j
  assume "length fs = unat k \<and> fires_fail fs t" and "j < unat k"
  then show "\<exists>tj. spin (take j fs) t = (Looping, [], of_nat j, tj, []) \<and>
             (0 < j \<longrightarrow> state tj = TaskSpinning)"
    using threshold_not_before [OF k(1)] by blast
next
  assume "sr_State sr = Active \<and>
     lastFailureTime (active_fire sr now w t) \<noteq> lastFireTime (active_fire sr now w t)"
  then show "spin_body (Received sr now w) c t = (Looping, 0, active_fire sr now w t, [])"
    using spin_body_succeeding [of sr now w t c] k by simp
qed

theorem failure_threshold_witness:
  "stopOnFailure exSpinning = 3 \<and> length exFails = unat (3::uint) \<and>
   fires_fail exFails exSpinning \<and>
   (case spin exFails exSpinning of (st, rest, c, t', evs) \<Rightarrow>
      st = Returned \<and> c = 3 \<and> state t' = TaskDisabled \<and> hitCount t' = 3 \<and>
      evs = [\<lparr> TaskID = 1, Why = ''Task disabled with error: boom'' \<rparr>]) \<and>
   (case spin (take 2 exFails) exSpinning of (st, rest, c, t', evs) \<Rightarrow>
      st = Looping \<and> c = 2 \<and> state t' = TaskSpinning \<and> evs = []) \<and>
   spin_body (Received (exActive 0) 12 exSucceeding) 2 exSpinning =
     (Looping, 0, active_fire (exActive 0) 12 exSucceeding exSpinning, [])"
proof -
  have ff: "fires_fail exFails exSpinning"
    by (simp add: exFails_def exActive_def exFailing_def active_fire_def fire_def
        workflow_Start_def Let_def)
  have len: "length exFails = unat (3::uint)" by (simp add: exFails_def)
  have ok: "sr_State (exActive 0) = Active \<and>
     lastFailureTime (active_fire (exActive 0) 12 exSucceeding exSpinning) \<noteq>
     lastFireTime (active_fire (exActive 0) 12 exSucceeding exSpinning)"
    by (simp add: exActive_def exSucceeding_def active_fire_def fire_def workflow_Start_def
        Let_def exSpinning_fields)
  note th = failure_threshold [where t = exSpinning and k = 3 and fs = exFails and rest = "[]"
      and sr = "exActive 0" and now = 12 and w = exSucceeding and c = 2,
      OF exSpinning_fields(1)]
  have e1: "(case spin exFails exSpinning of (st, rest, c, t', evs) \<Rightarrow>
      st = Returned \<and> c = 3 \<and> state t' = TaskDisabled \<and> hitCount t' = 3 \<and>
      evs = [\<lparr> TaskID = 1, Why = ''Task disabled with error: boom'' \<rparr>])"
    by (simp add: spin_def exFails_def exActive_def exFailing_def active_fire_def fire_def
        workflow_Start_def Let_def exSpinning_fields word_le_nat_alt)
  have e2: "(case spin (take 2 exFails) exSpinning of (st, rest, c, t', evs) \<Rightarrow>
      st = Looping \<and> c = 2 \<and> state t' = TaskSpinning \<and> evs = [])"
    by (simp add: spin_def exFails_def exActive_def exFailing_def active_fire_def fire_def
        workflow_Start_def Let_def exSpinning_fields word_le_nat_alt)
  from th ff len ok e1 e2 show ?thesis
    by (simp add: exSpinning_fields)
qed

text \<open>
  C9. With the stop-on-failure threshold set to 0, the first Active response makes the
  loop return with the task in state \<open>TaskDisabled\<close> and one disabled event emitted,
  whether the fire failed or not: when it succeeded the counter has just been reset to 0,
  and the test \<open>consecutiveFailures >= stopOnFailure\<close> still holds.
\<close>

theorem zero_threshold_disables:
  "sr_State sr = Active \<Longrightarrow>
   \<exists>c' t'. spin (Received sr now w # rest) (SetStopOnFailure 0 t) =
       (Returned, rest, c', t',
        [\<lparr> TaskID = id_task t,
           Why = ''Task disabled with error: '' @ lastFailureMessage t' \<rparr>]) \<and>
     state t' = TaskDisabled \<and> hitCount t' = hitCount t + 1 \<and>
     (c' = 0 \<longleftrightarrow> lastFailureTime t' \<noteq> lastFireTime t')"
  by (simp add: spin_def Let_def active_fire_fields SetStopOnFailure_def)

theorem zero_threshold_disables_witness:
  "sr_State (exActive 0) = Active \<and>
   (case spin [Received (exActive 0) 10 exSucceeding] (SetStopOnFailure 0 exSpinning) of
      (st, rest, c, t', evs) \<Rightarrow>
        st = Returned \<and> c = 0 \<and> state t' = TaskDisabled \<and>
        lastFailureTime t' \<noteq> lastFireTime t' \<and>
        evs = [\<lparr> TaskID = 1, Why = ''Task disabled with error: '' \<rparr>])"
proof -
  have a: "sr_State (exActive 0) = Active" by (simp add: exActive_def)
  have e: "(case spin [Received (exActive 0) 10 exSucceeding] (SetStopOnFailure 0 exSpinning) of
      (st, rest, c, t', evs) \<Rightarrow>
        st = Returned \<and> c = 0 \<and> state t' = TaskDisabled \<and>
        lastFailureTime t' \<noteq> lastFireTime t' \<and>
        evs = [\<lparr> TaskID = 1, Why = ''Task disabled with error: '' \<rparr>])"
    by (simp add: spin_def exActive_def exSucceeding_def active_fire_def fire_def
        workflow_Start_def Let_def SetStopOnFailure_def ex_defs)
  from zero_threshold_disables [OF a, of 10 exSucceeding "[]" exSpinning] a e
  show ?thesis by simp
qed

lemma spin_body_events:
  "spin_body x c t = (st, c', t', es) \<Longrightarrow>
   es = [] \<or>
   (st = Returned \<and> state t' = TaskDisabled \<and> stopOnFailure t' \<le> c' \<and>
    (\<exists>sr now w. x = Received sr now w \<and> sr_State sr = Active) \<and>
    es = [\<lparr> TaskID = id_task t',
            Why = ''Task disabled with error: '' @ lastFailureMessage t' \<rparr>])"
  by (cases x; cases "sr_State (case x of Received sr _ _ \<Rightarrow> sr)")
     (auto simp: Let_def split: if_splits)

lemma spin_body_looping_silent:
  "spin_body x c0 t0 = (Looping, c', t', es) \<Longrightarrow> es = []"
  using spin_body_events [of x c0 t0 Looping c' t' es] by auto

lemma spin_body_returned:
  assumes "spin_body x c0 t0 = (Returned, c', t', es)"
  shows "if (\<exists>sr now w. x = Received sr now w \<and> sr_State sr = Active)
         then es = [\<lparr> TaskID = id_task t',
                       Why = ''Task disabled with error: '' @ lastFailureMessage t' \<rparr>] \<and>
              state t' = TaskDisabled \<and> stopOnFailure t' \<le> c'
         else es = []"
proof (cases x)
  case KillSignal
  with assms show ?thesis by auto
next
  case (Received sr now w)
  show ?thesis
  proof (cases "sr_State sr")
    case Active
    with assms Received show ?thesis
      by (auto simp: Let_def active_fire_fields split: if_splits)
  next
    case Ended
    with assms Received show ?thesis by auto
  next
    case Error
    with assms Received show ?thesis by auto
  qed
qed

lemma spin_loop_looping:
  "spin_loop xs c t evs = (Looping, rest, c', t', evs') \<Longrightarrow> evs' = evs"
proof (induction xs arbitrary: c t evs)
  case Nil
  then show ?case by simp
next
  case (Cons x xs)
  obtain s1 c1 t1 es1 where b: "spin_body x c t = (s1, c1, t1, es1)"
    by (cases "spin_body x c t") auto
  show ?case
  proof (cases s1)
    case Returned
    with b Cons.prems show ?thesis by simp
  next
    case Looping
    with b have e: "es1 = []" using spin_body_looping_silent by blast
    with b Looping Cons.prems have "spin_loop xs c1 t1 evs = (Looping, rest, c', t', evs')"
      by simp
    then show ?thesis by (rule Cons.IH)
  qed
qed

lemma spin_loop_returned:
  "spin_loop xs c t evs = (Returned, rest, c', t', evs') \<Longrightarrow>
   \<exists>pre x c0 t0 es. xs = pre @ x # rest \<and> spin_body x c0 t0 = (Returned, c', t', es) \<and>
      evs' = evs @ es"
proof (induction xs arbitrary: c t evs)
  case Nil
  then show ?case by simp
next
  case (Cons x xs)
  obtain s1 c1 t1 es1 where b: "spin_body x c t = (s1, c1, t1, es1)"
    by (cases "spin_body x c t") auto
  show ?case
  proof (cases s1)
    case Returned
    with b Cons.prems have "rest = xs" "c' = c1" "t' = t1" "evs' = evs @ es1" by simp_all
    with b Returned have "x # xs = [] @ x # rest \<and> spin_body x c t = (Returned, c', t', es1) \<and>
      evs' = evs @ es1" by simp
    then show ?thesis by blast
  next
    case Looping
    with b have e: "es1 = []" using spin_body_looping_silent by blast
    with b Looping Cons.prems have "spin_loop xs c1 t1 evs = (Returned, rest, c', t', evs')"
      by simp
    from Cons.IH [OF this] obtain pre y c0 t0 es where
      "xs = pre @ y # rest" "spin_body y c0 t0 = (Returned, c', t', es)" "evs' = evs @ es"
      by blast
    then have "x # xs = (x # pre) @ y # rest \<and> spin_body y c0 t0 = (Returned, c', t', es) \<and>
      evs' = evs @ es" by simp
    then show ?thesis by blast
  qed
qed

lemma spin_events_iff:
  assumes r: "spin xs t = (st, rest', c', t', evs')"
  shows "if st = Returned \<and>
            (\<exists>pre sr now w. xs = pre @ Received sr now w # rest' \<and> sr_State sr = Active)
         then evs' = [\<lparr> TaskID = id_task t',
                         Why = ''Task disabled with error: '' @ lastFailureMessage t' \<rparr>] \<and>
              state t' = TaskDisabled \<and> stopOnFailure t' \<le> c'
         else evs' = []"
proof (cases st)
  case Looping
  with r have "evs' = []" using spin_loop_looping [of xs 0 t "[]" rest' c' t' evs']
    by (simp add: spin_def)
  with Looping show ?thesis by simp
next
  case Returned
  with r obtain pre x c0 t0 es where xs: "xs = pre @ x # rest'"
    and b: "spin_body x c0 t0 = (Returned, c', t', es)" and ev: "evs' = es"
    using spin_loop_returned [of xs 0 t "[]" rest' c' t' evs'] by (auto simp: spin_def)
  have same: "(\<exists>pre sr now w. xs = pre @ Received sr now w # rest' \<and> sr_State sr = Active) =
      (\<exists>sr now w. x = Received sr now w \<and> sr_State sr = Active)"
  proof
    assume "\<exists>pre sr now w. xs = pre @ Received sr now w # rest' \<and> sr_State sr = Active"
    then obtain p sr now w where p: "xs = p @ Received sr now w # rest'" and a: "sr_State sr = Active"
      by blast
    from p xs have eq: "p @ Received sr now w # rest' = pre @ x # rest'" by (rule trans [OF sym])
    have "length (Received sr now w # rest') = length (x # rest')" by simp
    with eq have "Received sr now w # rest' = x # rest'"
      using append_eq_append_conv [of p pre "Received sr now w # rest'" "x # rest'"] by blast
    then have "x = Received sr now w" by simp
    with a show "\<exists>sr now w. x = Received sr now w \<and> sr_State sr = Active" by blast
  next
    assume "\<exists>sr now w. x = Received sr now w \<and> sr_State sr = Active"
    with xs show "\<exists>pre sr now w. xs = pre @ Received sr now w # rest' \<and> sr_State sr = Active"
      by blast
  qed
  note sb = spin_body_returned [OF b]
  show ?thesis
  proof (cases "\<exists>sr now w. x = Received sr now w \<and> sr_State sr = Active")
    case True
    with sb have "es = [\<lparr> TaskID = id_task t',
                       Why = ''Task disabled with error: '' @ lastFailureMessage t' \<rparr>] \<and>
              state t' = TaskDisabled \<and> stopOnFailure t' \<le> c'" by (simp only: if_True)
    moreover from True same
    have "st = Returned \<and>
       (\<exists>pre sr now w. xs = pre @ Received sr now w # rest' \<and> sr_State sr = Active)"
      using Returned by blast
    ultimately show ?thesis using ev by (simp del: ex_simps)
  next
    case False
    with sb have "es = []" by (simp only: if_False)
    moreover from False same
    have "\<not> (st = Returned \<and>
       (\<exists>pre sr now w. xs = pre @ Received sr now w # rest' \<and> sr_State sr = Active))"
      by blast
    ultimately show ?thesis using ev by (simp del: ex_simps)
  qed
qed

text \<open>
  C4. On an Ended response the loop sets the state to \<open>TaskEnded\<close> and returns; on an Error
  response it sets the state to \<open>TaskDisabled\<close> and returns; in both cases it emits
  nothing. Whatever the loop receives: when it has returned from an Active response,
  which it only does with the counter at or above the threshold, it has emitted exactly
  one event, carrying the task's identifier and last failure message, and the state is
  \<open>TaskDisabled\<close>; in every other case (still running, or returned from an Ended or Error
  response or from the kill signal) it has emitted nothing.
\<close>

theorem ended_error_no_event:
  "(sr_State sr = Ended \<longrightarrow>
      spin_loop (Received sr now w # rest) c t evs =
        (Returned, rest, c, t\<lparr>state := TaskEnded\<rparr>, evs)) \<and>
   (sr_State sr = Error \<longrightarrow>
      spin_loop (Received sr now w # rest) c t evs =
        (Returned, rest, c, t\<lparr>state := TaskDisabled\<rparr>, evs)) \<and>
   (spin xs t = (st, rest', c', t', evs') \<longrightarrow>
      (if st = Returned \<and>
          (\<exists>pre sr now w. xs = pre @ Received sr now w # rest' \<and> sr_State sr = Active)
       then evs' = [\<lparr> TaskID = id_task t',
                       Why = ''Task disabled with error: '' @ lastFailureMessage t' \<rparr>] \<and>
            state t' = TaskDisabled \<and> stopOnFailure t' \<le> c'
       else evs' = []))"
proof (intro conjI impI)
  assume "sr_State sr = Ended"
  then show "spin_loop (Received sr now w # rest) c t evs =
        (Returned, rest, c, t\<lparr>state := TaskEnded\<rparr>, evs)" by simp
next
  assume "sr_State sr = Error"
  then show "spin_loop (Received sr now w # rest) c t evs =
        (Returned, rest, c, t\<lparr>state := TaskDisabled\<rparr>, evs)" by simp
next
  assume "spin xs t = (st, rest', c', t', evs')"
  then show "if st = Returned \<and>
          (\<exists>pre sr now w. xs = pre @ Received sr now w # rest' \<and> sr_State sr = Active)
       then evs' = [\<lparr> TaskID = id_task t',
                       Why = ''Task disabled with error: '' @ lastFailureMessage t' \<rparr>] \<and>
            state t' = TaskDisabled \<and> stopOnFailure t' \<le> c'
       else evs' = []"
    by (rule spin_events_iff)
qed

theorem ended_error_no_event_witness:
  "sr_State exEnded = Ended \<and> sr_State exError = Error \<and>
   spin [Received exEnded 10 exSucceeding] exSpinning =
     (Returned, [], 0, exSpinning\<lparr>state := TaskEnded\<rparr>, []) \<and>
   spin [Received exError 10 exSucceeding] exSpinning =
     (Returned, [], 0, exSpinning\<lparr>state := TaskDisabled\<rparr>, []) \<and>
   (case spin exFails exSpinning of (st, rest, c, t', evs) \<Rightarrow>
      st = Returned \<and> rest = [] \<and> state t' = TaskDisabled \<and>
      evs = [\<lparr> TaskID = 1, Why = ''Task disabled with error: boom'' \<rparr>]) \<and>
   (case spin (take 2 exFails) exSpinning of (st, rest, c, t', evs) \<Rightarrow>
      st = Looping \<and> evs = [])"
proof -
  have e1: "(case spin exFails exSpinning of (st, rest, c, t', evs) \<Rightarrow>
      st = Returned \<and> rest = [] \<and> state t' = TaskDisabled \<and>
      evs = [\<lparr> TaskID = 1, Why = ''Task disabled with error: boom'' \<rparr>])"
    by (simp add: spin_def exFails_def exActive_def exFailing_def active_fire_def fire_def
        workflow_Start_def Let_def exSpinning_fields word_le_nat_alt)
  have e2: "(case spin (take 2 exFails) exSpinning of (st, rest, c, t', evs) \<Rightarrow>
      st = Looping \<and> evs = [])"
    by (simp add: spin_def exFails_def exActive_def exFailing_def active_fire_def fire_def
        workflow_Start_def Let_def exSpinning_fields word_le_nat_alt)
  obtain st rest c t' evs where r: "spin exFails exSpinning = (st, rest, c, t', evs)"
    by (cases "spin exFails exSpinning") auto
  from e1 r have sr: "st = Returned" "rest = []" by simp_all
  have "exFails = [Received (exActive 0) 10 exFailing, Received (exActive 0) 11 exFailing] @
      Received (exActive 0) 12 exFailing # rest \<and> sr_State (exActive 0) = Active"
    using sr by (simp add: exFails_def exActive_def)
  then have ex: "\<exists>pre sr now w. exFails = pre @ Received sr now w # rest \<and> sr_State sr = Active"
    by blast
  from ended_error_no_event [where xs = exFails and t = exSpinning and st = st and rest' = rest
      and c' = c and t' = t' and evs' = evs and sr = exEnded and now = 10 and w = exSucceeding
      and rest = "[]" and c = 0 and evs = "[]"] r sr ex
  have one: "evs = [\<lparr> TaskID = id_task t',
      Why = ''Task disabled with error: '' @ lastFailureMessage t' \<rparr>]"
    by (simp del: ex_simps)
  from ended_error_no_event [where sr = exEnded and now = 10 and w = exSucceeding
      and rest = "[]" and c = 0 and t = exSpinning and evs = "[]" and xs = "[]"]
    ended_error_no_event [where sr = exError and now = 10 and w = exSucceeding
      and rest = "[]" and c = 0 and t = exSpinning and evs = "[]" and xs = "[]"]
    e1 e2 one
  show ?thesis by (simp add: exEnded_def exError_def spin_def)
qed

lemma created_Spin_fields:
  "state (tsk (Spin (created idc cs n0 s wfl m mm em opts))) = TaskSpinning"
  "hitCount (tsk (Spin (created idc cs n0 s wfl m mm em opts))) = 0"
  "missedIntervals (tsk (Spin (created idc cs n0 s wfl m mm em opts))) = 0"
  "loops (Spin (created idc cs n0 s wfl m mm em opts)) = [0]"
  by (simp_all add: created_def Spin_def newTask_def id_gen_def make_chan_def
      fold_apply_opt_frame)

lemma spin_body_Ended:
  "sr_State sr = Ended \<Longrightarrow>
   spin_body (Received sr now w) c t = (Returned, c, t\<lparr>state := TaskEnded\<rparr>, [])"
  by simp

text \<open>
  C3, as the code has it. The scenario fails for a task whose stop-on-failure threshold is
  0, which \<open>SetStopOnFailure\<close> accepts: the Active response with 2 missed ticks is counted
  and its fire succeeds, but the pass disables the task and emits the disabled event, and
  the loop returns before the Ended response, so the final state is \<open>TaskDisabled\<close>.
\<close>

theorem scenario_b_zero_threshold_counterexample:
  "(case spin [Received (exActive 2) 10 exSucceeding, Received exEnded 11 exSucceeding]
      (tsk (Spin (created 0 exChans 7 1 2 3 4 5 [OptionStopOnFailure 0]))) of
    (st, rest, c, t', evs) \<Rightarrow>
      st = Returned \<and> length rest = 1 \<and> state t' = TaskDisabled \<and> state t' \<noteq> TaskEnded \<and>
      hitCount t' = 1 \<and> missedIntervals t' = 2 \<and>
      lastFailureTime t' \<noteq> lastFireTime t' \<and> length evs = 1)"
  by (simp add: spin_def ex_defs SetStopOnFailure_def active_fire_def fire_def
      workflow_Start_def Let_def)

text \<open>
  C3, amended. On an Active response the loop adds the response's missed count to
  \<open>missedIntervals\<close>, records the clock reading as \<open>lastFireTime\<close>, adds one to \<open>hitCount\<close>
  and starts the workflow on the task in state \<open>TaskFiring\<close>; when the workflow is back the
  state is \<open>TaskSpinning\<close>, and the pass leaves the task so unless it disables it. For a task
  fresh from \<open>newTask\<close> and started by \<open>Spin\<close>, with a non-zero threshold: an Active response
  with 2 missed ticks whose fire succeeds, followed by an Ended response, leaves the
  state \<open>TaskEnded\<close>, \<open>hitCount\<close> 1 and \<open>missedIntervals\<close> 2.
\<close>

theorem active_response:
  "sr_State sr = Active \<Longrightarrow>
   (\<exists>tf st c' t' es.
      state tf = TaskFiring \<and>
      tf = t\<lparr>missedIntervals := missedIntervals t + sr_Missed sr, lastFireTime := now,
             hitCount := hitCount t + 1, state := TaskFiring\<rparr> \<and>
      active_fire sr now w t = (workflow_Start w tf)\<lparr>state := TaskSpinning\<rparr> \<and>
      missedIntervals (active_fire sr now w t) = missedIntervals t + sr_Missed sr \<and>
      lastFireTime (active_fire sr now w t) = now \<and>
      hitCount (active_fire sr now w t) = hitCount t + 1 \<and>
      state (active_fire sr now w t) = TaskSpinning \<and>
      spin_body (Received sr now w) c t = (st, c', t', es) \<and>
      (if st = Looping then t' = active_fire sr now w t
       else t' = (active_fire sr now w t)\<lparr>state := TaskDisabled\<rparr>)) \<and>
   (sr_Missed sr = 2 \<and> sr_State sr' = Ended \<and>
    t = tsk (Spin (created idc cs n0 s wfl m mm em opts)) \<and> stopOnFailure t \<noteq> 0 \<and>
    lastFailureTime (active_fire sr now w t) \<noteq> lastFireTime (active_fire sr now w t) \<longrightarrow>
      (\<exists>t'. spin [Received sr now w, Received sr' now' w'] t = (Returned, [], 0, t', []) \<and>
         state t' = TaskEnded \<and> hitCount t' = 1 \<and> missedIntervals t' = 2))"
proof (intro conjI impI)
  assume a: "sr_State sr = Active"
  show "\<exists>tf st c' t' es.
      state tf = TaskFiring \<and>
      tf = t\<lparr>missedIntervals := missedIntervals t + sr_Missed sr, lastFireTime := now,
             hitCount := hitCount t + 1, state := TaskFiring\<rparr> \<and>
      active_fire sr now w t = (workflow_Start w tf)\<lparr>state := TaskSpinning\<rparr> \<and>
      missedIntervals (active_fire sr now w t) = missedIntervals t + sr_Missed sr \<and>
      lastFireTime (active_fire sr now w t) = now \<and>
      hitCount (active_fire sr now w t) = hitCount t + 1 \<and>
      state (active_fire sr now w t) = TaskSpinning \<and>
      spin_body (Received sr now w) c t = (st, c', t', es) \<and>
      (if st = Looping then t' = active_fire sr now w t
       else t' = (active_fire sr now w t)\<lparr>state := TaskDisabled\<rparr>)"
    using a by (simp add: active_fire_fields Let_def) (simp add: active_fire_def fire_def Let_def)
next
  assume a: "sr_State sr = Active"
  assume h: "sr_Missed sr = 2 \<and> sr_State sr' = Ended \<and>
    t = tsk (Spin (created idc cs n0 s wfl m mm em opts)) \<and> stopOnFailure t \<noteq> 0 \<and>
    lastFailureTime (active_fire sr now w t) \<noteq> lastFireTime (active_fire sr now w t)"
  then have ne: "stopOnFailure t \<noteq> 0"
    and ok: "lastFailureTime (active_fire sr now w t) \<noteq> lastFireTime (active_fire sr now w t)"
    by blast+
  have b: "spin_body (Received sr now w) 0 t = (Looping, 0, active_fire sr now w t, [])"
    using spin_body_succeeding [OF a ok, of 0] ne by (simp del: spin_body.simps)
  from h have "hitCount t = 0" "missedIntervals t = 0" by (auto simp: created_Spin_fields)
  moreover from h have "sr_Missed sr = 2" "sr_State sr' = Ended" by blast+
  ultimately show "\<exists>t'. spin [Received sr now w, Received sr' now' w'] t = (Returned, [], 0, t', []) \<and>
         state t' = TaskEnded \<and> hitCount t' = 1 \<and> missedIntervals t' = 2"
    using b by (simp add: spin_def active_fire_fields spin_body_Ended del: spin_body.simps(1))
qed

theorem active_response_witness:
  "sr_State (exActive 2) = Active \<and> sr_Missed (exActive 2) = 2 \<and> sr_State exEnded = Ended \<and>
   stopOnFailure exSpinning \<noteq> 0 \<and>
   (case spin [Received (exActive 2) 10 exSucceeding, Received exEnded 11 exSucceeding] exSpinning
    of (st, rest, c, t', evs) \<Rightarrow>
      st = Returned \<and> state t' = TaskEnded \<and> hitCount t' = 1 \<and> missedIntervals t' = 2 \<and>
      lastFireTime t' = 10 \<and> evs = [])"
proof -
  have a: "sr_State (exActive 2) = Active" by (simp add: exActive_def)
  have e: "(case spin [Received (exActive 2) 10 exSucceeding, Received exEnded 11 exSucceeding] exSpinning
    of (st, rest, c, t', evs) \<Rightarrow>
      st = Returned \<and> state t' = TaskEnded \<and> hitCount t' = 1 \<and> missedIntervals t' = 2 \<and>
      lastFireTime t' = 10 \<and> evs = [])"
    by (simp add: spin_def exActive_def exEnded_def exSucceeding_def active_fire_def fire_def
        workflow_Start_def Let_def exSpinning_fields word_le_nat_alt)
  from active_response [OF a, where now = 10 and w = exSucceeding and t = exSpinning
      and sr' = exEnded and now' = 11 and w' = exSucceeding and c = 0 and idc = 0
      and cs = exChans and ?n0.0 = 7 and s = 1 and wfl = 2 and m = 3 and mm = 4 and em = 5 and opts = "[]"]
    a e
  show ?thesis by (simp add: exSpinning_fields exActive_def exEnded_def)
qed

section \<open>Properties of start and stop\<close>

lemma spin_body_effect:
  assumes "spin_body x c t = (st, c', t', es)"
  shows "killChan t' = killChan t \<and>
   (st = Looping \<longrightarrow> state t' = TaskSpinning) \<and>
   (st = Returned \<longrightarrow> state t' = TaskEnded \<or> state t' = TaskDisabled \<or>
      (state t' = TaskStopped \<and> x = KillSignal))"
proof (cases x)
  case KillSignal
  with assms show ?thesis by auto
next
  case (Received sr now w)
  show ?thesis
  proof (cases "sr_State sr")
    case Active
    define ta where "ta = active_fire sr now w t"
    have f: "killChan ta = killChan t" "state ta = TaskSpinning"
      by (simp_all add: ta_def active_fire_fields)
    from assms Received Active
    have "(t' = ta \<and> st = Looping) \<or> (t' = ta\<lparr>state := TaskDisabled\<rparr> \<and> st = Returned)"
      by (auto simp: Let_def ta_def split: if_splits)
    with f show ?thesis by auto
  next
    case Ended
    with assms Received show ?thesis by auto
  next
    case Error
    with assms Received show ?thesis by auto
  qed
qed

lemma Spin_inv: "sys_inv s \<Longrightarrow> sys_inv (Spin s)"
  by (auto simp: sys_inv_def Spin_def make_chan_def less_Suc_eq)

lemma Stop_inv: "sys_inv s \<Longrightarrow> Stop s = Inr s' \<Longrightarrow> sys_inv s'"
  by (auto simp: sys_inv_def Stop_def close_chan_def split: if_splits option.splits)

lemma Kill_inv: "sys_inv s \<Longrightarrow> Kill s = Inr s' \<Longrightarrow> sys_inv s'"
  by (auto simp: sys_inv_def Kill_def close_chan_def split: if_splits option.splits)

lemma Pass_inv:
  assumes inv: "sys_inv s" and en: "enabled (Pass i x) s" and st: "step (Pass i x) s = Inr s'"
  shows "sys_inv s'"
proof -
  from en have il: "i < length (loops s)" by (cases x) simp_all
  with inv have i0: "i = 0" and l1: "length (loops s) = 1" by (auto simp: sys_inv_def)
  then obtain c where lc: "loops s = [c]" by (cases "loops s") auto
  obtain r c' t' es where b: "spin_body x c (tsk s) = (r, c', t', es)"
    by (cases "spin_body x c (tsk s)") auto
  note eff = spin_body_effect [OF b]
  show ?thesis
  proof (cases r)
    case Looping
    with b st i0 lc have "s' = s\<lparr>tsk := t', loops := [c'], emitted := emitted s @ es\<rparr>"
      by simp
    with inv eff Looping lc show ?thesis by (auto simp: sys_inv_def)
  next
    case Returned
    with b st i0 lc have "s' = s\<lparr>tsk := t', loops := [], emitted := emitted s @ es\<rparr>"
      by (simp add: drop_nth_def)
    with inv eff Returned show ?thesis by (auto simp: sys_inv_def)
  qed
qed

lemma step_inv: "sys_inv s \<Longrightarrow> enabled a s \<Longrightarrow> step a s = Inr s' \<Longrightarrow> sys_inv s'"
proof (cases a)
  case CallSpin
  assume "sys_inv s" "step a s = Inr s'"
  with CallSpin show ?thesis using Spin_inv by auto
next
  case CallStop
  assume "sys_inv s" "step a s = Inr s'"
  with CallStop show ?thesis using Stop_inv by auto
next
  case CallKill
  assume "sys_inv s" "step a s = Inr s'"
  with CallKill show ?thesis using Kill_inv by auto
next
  case (Pass i x)
  assume "sys_inv s" "enabled a s" "step a s = Inr s'"
  with Pass show ?thesis using Pass_inv by auto
qed

lemma run_inv: "sys_inv s \<Longrightarrow> run acts s = Some (Inr s') \<Longrightarrow> sys_inv s'"
proof (induction acts arbitrary: s)
  case Nil
  then show ?case by simp
next
  case (Cons a acts)
  from Cons.prems(2) have en: "enabled a s" by (simp split: if_splits)
  with Cons.prems(2) obtain s1 where s1: "step a s = Inr s1" and r: "run acts s1 = Some (Inr s')"
    by (cases "step a s") simp_all
  from step_inv [OF Cons.prems(1) en s1] r show ?case by (rule Cons.IH)
qed

lemma created_inv:
  "\<forall>k \<in> closed_chans cs. k < made cs \<Longrightarrow> sys_inv (created idc cs n0 sch wfl m mm em opts)"
  by (auto simp: sys_inv_def created_def newTask_def id_gen_def make_chan_def
      fold_apply_opt_frame less_Suc_eq)

lemma step_running:
  assumes r: "running s" and ns: "\<not> is_stop a" and en: "enabled a s" and st: "step a s = Inr s'"
  shows "running s'"
proof (cases a)
  case CallSpin
  with r st show ?thesis by (auto simp: running_def Spin_def)
next
  case CallStop
  with ns show ?thesis by simp
next
  case CallKill
  with ns show ?thesis by simp
next
  case (Pass i x)
  show ?thesis
  proof (cases x)
    case KillSignal
    with Pass en r show ?thesis by (simp add: running_def)
  next
    case (Received sr now w)
    obtain q c' t' es where b: "spin_body x (loops s ! i) (tsk s) = (q, c', t', es)"
      by (cases "spin_body x (loops s ! i) (tsk s)") auto
    note eff = spin_body_effect [OF b]
    from b st Pass have ts: "tsk s' = t'" and ss: "store s' = store s"
      by (cases q; auto)+
    from eff ts ss have kr: "kill_ready s' = kill_ready s"
      by (simp add: kill_ready_def split: option.splits)
    from eff Received ts have "state (tsk s') \<noteq> TaskStopped" by (cases q) auto
    with kr r show ?thesis by (simp add: running_def)
  qed
qed

lemma run_running:
  "running s \<Longrightarrow> \<forall>a \<in> set acts. \<not> is_stop a \<Longrightarrow> run acts s = Some (Inr s') \<Longrightarrow> running s'"
proof (induction acts arbitrary: s)
  case Nil
  then show ?case by simp
next
  case (Cons a acts)
  from Cons.prems(3) have en: "enabled a s" by (simp split: if_splits)
  with Cons.prems(3) obtain s1 where s1: "step a s = Inr s1" and r: "run acts s1 = Some (Inr s')"
    by (cases "step a s") simp_all
  from Cons.prems(2) have ns: "\<not> is_stop a" and rest: "\<forall>a \<in> set acts. \<not> is_stop a" by simp_all
  from step_running [OF Cons.prems(1) ns en s1] rest r show ?case by (rule Cons.IH)
qed

lemma Spin_running:
  "sys_inv s \<Longrightarrow> state (tsk s) = TaskStopped \<Longrightarrow> running (Spin s)"
  by (auto simp: running_def sys_inv_def Spin_def make_chan_def kill_ready_def)

lemma exStarted_inv: "sys_inv exStarted"
  unfolding exStarted_def by (intro Spin_inv created_inv) (simp add: exChans_def)

text \<open>
  C7. \<open>Spin\<close> changes nothing unless the task's state is \<open>TaskStopped\<close>; then it sets the
  state to \<open>TaskSpinning\<close>, stores a newly made kill channel and launches exactly one spin
  goroutine. Calling it twice in a row is the same as calling it once. In every state
  reached from a freshly created task at most one spin goroutine is live; when such a
  state is stopped, \<open>Spin\<close> launches the only live goroutine with an open kill channel, and
  after any further steps that include no call of \<open>Stop\<close> or \<open>Kill\<close>, another \<open>Spin\<close> changes
  nothing.
\<close>

theorem Spin_only_from_stopped:
  "(state (tsk s) \<noteq> TaskStopped \<longrightarrow> Spin s = s) \<and>
   (state (tsk s) = TaskStopped \<longrightarrow>
      Spin s = s\<lparr>tsk := (tsk s)\<lparr>state := TaskSpinning, killChan := Some (made (store s))\<rparr>,
                 store := (store s)\<lparr>made := Suc (made (store s))\<rparr>,
                 loops := loops s @ [0]\<rparr> \<and>
      length (loops (Spin s)) = Suc (length (loops s))) \<and>
   Spin (Spin s) = Spin s \<and>
   ((\<forall>k \<in> closed_chans cs. k < made cs) \<and>
    run acts (created idc cs n0 sch wfl m mm em opts) = Some (Inr s1) \<longrightarrow>
      length (loops s1) \<le> 1 \<and>
      (state (tsk s1) = TaskStopped \<longrightarrow>
         loops s1 = [] \<and> loops (Spin s1) = [0] \<and> \<not> kill_ready (Spin s1) \<and>
         (\<forall>acts2 s2. (\<forall>a \<in> set acts2. \<not> is_stop a) \<and> run acts2 (Spin s1) = Some (Inr s2) \<longrightarrow>
            Spin s2 = s2 \<and> length (loops s2) \<le> 1)))"
proof (intro conjI impI allI)
  assume "state (tsk s) \<noteq> TaskStopped"
  then show "Spin s = s" by (simp add: Spin_def)
next
  assume "state (tsk s) = TaskStopped"
  then show "Spin s = s\<lparr>tsk := (tsk s)\<lparr>state := TaskSpinning, killChan := Some (made (store s))\<rparr>,
                 store := (store s)\<lparr>made := Suc (made (store s))\<rparr>,
                 loops := loops s @ [0]\<rparr>"
    by (simp add: Spin_def make_chan_def)
next
  assume "state (tsk s) = TaskStopped"
  then show "length (loops (Spin s)) = Suc (length (loops s))"
    by (simp add: Spin_def make_chan_def)
next
  show "Spin (Spin s) = Spin s" by (simp add: Spin_def make_chan_def)
next
  assume h: "(\<forall>k \<in> closed_chans cs. k < made cs) \<and>
    run acts (created idc cs n0 sch wfl m mm em opts) = Some (Inr s1)"
  then have inv: "sys_inv s1" using created_inv run_inv by blast
  then show "length (loops s1) \<le> 1" by (simp add: sys_inv_def)
  {
    assume st: "state (tsk s1) = TaskStopped"
    with inv show e: "loops s1 = []" by (simp add: sys_inv_def)
    from e st show "loops (Spin s1) = [0]" by (simp add: Spin_def make_chan_def)
    from Spin_running [OF inv st] show "\<not> kill_ready (Spin s1)" by (simp add: running_def)
    fix acts2 s2
    assume r: "(\<forall>a \<in> set acts2. \<not> is_stop a) \<and> run acts2 (Spin s1) = Some (Inr s2)"
    then have "running s2" using run_running [OF Spin_running [OF inv st]] by blast
    then show "Spin s2 = s2" by (simp add: running_def Spin_def)
    from r have "sys_inv s2" using run_inv [OF Spin_inv [OF inv]] by blast
    then show "length (loops s2) \<le> 1" by (simp add: sys_inv_def)
  }
qed

theorem Spin_only_from_stopped_witness:
  "state (tsk (created 0 exChans 7 1 2 3 4 5 [])) = TaskStopped \<and>
   Spin (created 0 exChans 7 1 2 3 4 5 []) = exStarted \<and>
   state (tsk exStarted) = TaskSpinning \<and> killChan (tsk exStarted) = Some 1 \<and>
   loops exStarted = [0] \<and> Spin exStarted = exStarted \<and>
   run [Pass 0 (Received (exActive 0) 10 exSucceeding)] exStarted = Some (Inr exFired) \<and>
   Spin exFired = exFired \<and> length (loops exFired) \<le> 1"
proof -
  have w: "\<forall>k \<in> closed_chans exChans. k < made exChans" by (simp add: exChans_def)
  have a: "state (tsk (created 0 exChans 7 1 2 3 4 5 [])) = TaskStopped"
    by (simp add: ex_defs)
  have r0: "run [] (created 0 exChans 7 1 2 3 4 5 []) = Some (Inr (created 0 exChans 7 1 2 3 4 5 []))"
    by simp
  have b: "state (tsk exStarted) = TaskSpinning \<and> killChan (tsk exStarted) = Some 1 \<and>
     loops exStarted = [0]"
    by (simp add: ex_defs)
  have ns: "\<forall>a \<in> set [Pass 0 (Received (exActive 0) 10 exSucceeding)]. \<not> is_stop a" by simp
  have r: "run [Pass 0 (Received (exActive 0) 10 exSucceeding)] exStarted = Some (Inr exFired)"
    by (simp add: exFired_def ex_defs active_fire_def fire_def workflow_Start_def Let_def
        word_le_nat_alt)
  note T = Spin_only_from_stopped [where s = "created 0 exChans 7 1 2 3 4 5 []"
      and cs = exChans and acts = "[]" and idc = 0 and ?n0.0 = 7 and sch = 1 and wfl = 2
      and m = 3 and mm = 4 and em = 5 and opts = "[]"
      and ?s1.0 = "created 0 exChans 7 1 2 3 4 5 []"]
  from T have c: "Spin exStarted = exStarted" by (simp add: exStarted_def)
  from T w r0 a have "\<forall>acts2 s2. (\<forall>a \<in> set acts2. \<not> is_stop a) \<and>
      run acts2 (Spin (created 0 exChans 7 1 2 3 4 5 [])) = Some (Inr s2) \<longrightarrow>
        Spin s2 = s2 \<and> length (loops s2) \<le> 1"
    by blast
  with ns r have d: "Spin exFired = exFired \<and> length (loops exFired) \<le> 1"
    unfolding exStarted_def by blast
  from a b c r d show ?thesis
    by (simp add: exStarted_def del: run.simps)
qed

lemma Stop_closes:
  assumes inv: "sys_inv s"
    and st: "state (tsk s) = TaskSpinning \<or> state (tsk s) = TaskFiring"
  shows "\<exists>k. killChan (tsk s) = Some k \<and>
         (case Stop s of
            Inl p \<Rightarrow> p = CloseOfClosedChannel \<and> k \<in> closed_chans (store s)
          | Inr s1 \<Rightarrow>
              s1 = s\<lparr>store := (store s)\<lparr>closed_chans := insert k (closed_chans (store s))\<rparr>\<rparr> \<and>
              kill_ready s1 \<and> enabled (Pass 0 KillSignal) s1)"
proof -
  from inv st obtain k where k: "killChan (tsk s) = Some k" and l: "loops s \<noteq> []"
    by (auto simp: sys_inv_def)
  from st k l have "case Stop s of
            Inl p \<Rightarrow> p = CloseOfClosedChannel \<and> k \<in> closed_chans (store s)
          | Inr s1 \<Rightarrow>
              s1 = s\<lparr>store := (store s)\<lparr>closed_chans := insert k (closed_chans (store s))\<rparr>\<rparr> \<and>
              kill_ready s1 \<and> enabled (Pass 0 KillSignal) s1"
    by (auto simp: Stop_def close_chan_def kill_ready_def)
  with k show ?thesis by blast
qed

lemma kill_signal_restart:
  assumes inv: "sys_inv s" and en: "enabled (Pass i KillSignal) s"
    and st: "step (Pass i KillSignal) s = Inr s2"
  shows "loops s2 = [] \<and> state (tsk s2) = TaskStopped \<and> lastFireTime (tsk s2) = zeroTime \<and>
      state (tsk (Spin s2)) = TaskSpinning \<and> loops (Spin s2) = [0] \<and>
      killChan (tsk (Spin s2)) = Some (made (store s)) \<and> \<not> kill_ready (Spin s2)"
proof -
  have inv2: "sys_inv s2" using step_inv [OF inv en st] .
  from st have t2: "tsk s2 = (tsk s)\<lparr>state := TaskStopped, lastFireTime := zeroTime\<rparr>"
    and st2: "store s2 = store s" by auto
  then have s: "state (tsk s2) = TaskStopped" and z: "lastFireTime (tsk s2) = zeroTime"
    by simp_all
  with inv2 have e: "loops s2 = []" by (simp add: sys_inv_def)
  have a: "state (tsk (Spin s2)) = TaskSpinning" using s by (simp add: Spin_def make_chan_def)
  have b: "loops (Spin s2) = [0]" using s e by (simp add: Spin_def make_chan_def)
  have c: "killChan (tsk (Spin s2)) = Some (made (store s))"
    using s st2 by (simp add: Spin_def make_chan_def)
  have d: "\<not> kill_ready (Spin s2)" using Spin_running [OF inv2 s] by (simp add: running_def)
  from s z e a b c d show ?thesis by simp
qed

text \<open>
  C2, at the input where the code departs from it. A fresh task is started and \<open>Stop\<close> is
  called: the state is still \<open>TaskSpinning\<close> and the kill channel is closed, ready for the
  loop to select. A second \<open>Stop\<close> arriving before the loop has done so finds the state
  \<open>TaskSpinning\<close>, closes the closed channel again and the program panics. \<open>Kill\<close>, which sets
  the state to \<open>TaskDisabled\<close> once it has closed the channel, can be called twice.
\<close>

theorem second_Stop_panics:
  "run [CallSpin, CallStop] (created 0 exChans 7 1 2 3 4 5 []) = Some (Inr exStopping) \<and>
   state (tsk exStopping) = TaskSpinning \<and> kill_ready exStopping \<and>
   Stop exStopping = Inl CloseOfClosedChannel \<and>
   run [CallSpin, CallStop, CallStop] (created 0 exChans 7 1 2 3 4 5 []) =
     Some (Inl CloseOfClosedChannel) \<and>
   (case run [CallSpin, CallKill, CallKill] (created 0 exChans 7 1 2 3 4 5 []) of
      Some (Inr s) \<Rightarrow> state (tsk s) = TaskDisabled \<and> kill_ready s
    | _ \<Rightarrow> False)"
  by (simp add: exStopping_def ex_defs Stop_def Kill_def close_chan_def kill_ready_def)

end
